theory Spec2Isabelle
  imports Main
begin

section \<open>The pool of stacks: data model\<close>

text \<open>
  The class \<open>stack_pool<T, N>\<close> keeps every node of every stack in one \<open>std::vector\<close>.
  A node is addressed by its position in the vector plus one; the index \<open>0\<close> is the
  proxy for the end of a stack. Indices are natural numbers here, and the index type \<open>N\<close>
  enters as its width \<open>w\<close> in bits (64 for the default \<open>std::size_t\<close>, 8 for \<open>uint8_t\<close>) at the
  one place where the source converts a size of the vector to an index,
  \<open>static_cast<stack_type>(pool.size())\<close> in \<open>_push\<close>: the conversion reduces the size
  modulo \<open>2 ^ w\<close>. The comparisons of the range check and the counter of \<open>reach\<close> neither
  convert nor overflow. In \<open>pool[x - 1]\<close> at \<open>x = 0\<close> the subtraction gives the
  largest value of \<open>size_t\<close> or of the index type, past the last node that an index of the
  type addresses, and \<open>operator[]\<close> does not check: that access is written out as the
  result \<open>UndefinedBehaviour\<close>.
\<close>

datatype error =
    OutOfRange           \<comment> \<open>thrown by \<open>AP_ERROR_IN_RANGE\<close>\<close>
  | NullPool             \<comment> \<open>thrown by \<open>AP_ERROR(pool_ptr != nullptr)\<close>\<close>
  | UndefinedBehaviour   \<comment> \<open>an unchecked access outside the vector, or through a null pointer\<close>

record 'a node_t =
  node_value :: 'a
  node_next :: nat

text \<open>
  \<open>pool_capacity\<close> is the capacity of the vector; the element list \<open>pool\<close> gives its
  size.
\<close>

record 'a stack_pool =
  pool :: "'a node_t list"
  pool_capacity :: nat
  free_nodes :: nat

text \<open>
  The range check \<open>AP_ERROR_IN_RANGE(a, lo, hi)\<close> comes from \<open>ap_error.hpp\<close>, which is not
  part of the sources. Every function that uses it takes the check as a parameter: the
  check passes when the predicate holds and throws otherwise.
\<close>

type_synonym range_check = "nat \<Rightarrow> nat \<Rightarrow> nat \<Rightarrow> bool"

text \<open>
  Modelled from the spec: the macro \<open>AP_ERROR_IN_RANGE\<close> of the missing header
  \<open>ap_error.hpp\<close>. The spec lets \<open>free_stack\<close> accept every head in \<open>[0, size()]\<close>, lets a
  cursor be constructed at the sentinel and lets \<open>reach\<close> take \<open>m = 0\<close>, each through this same
  macro call with the sentinel as lower bound; the source needs the same for
  \<open>end(stack_type) noexcept\<close>, \<open>ssize\<close> and a \<open>pop\<close> while no node is free. The check is
  therefore the closed range.
\<close>

definition AP_ERROR_IN_RANGE :: range_check where
  "AP_ERROR_IN_RANGE a lo hi \<longleftrightarrow> lo \<le> a \<and> a \<le> hi"

section \<open>The pool: queries and node access\<close>

definition end_sp :: nat where
  "end_sp = 0"

definition stack_pool_default :: "'a stack_pool" where
  "stack_pool_default = \<lparr>pool = [], pool_capacity = 0, free_nodes = end_sp\<rparr>"

definition new_stack :: nat where
  "new_stack = end_sp"

definition psize :: "'a stack_pool \<Rightarrow> nat" where
  "psize p = length (pool p)"

definition capacity :: "'a stack_pool \<Rightarrow> nat" where
  "capacity p = pool_capacity p"

definition empty_sp :: "nat \<Rightarrow> bool" where
  "empty_sp x \<longleftrightarrow> x = end_sp"

text \<open>\<open>node(x)\<close> is \<open>pool[x - 1]\<close>, unchecked.\<close>

definition node :: "'a stack_pool \<Rightarrow> nat \<Rightarrow> error + 'a node_t" where
  "node p x =
     (if 1 \<le> x \<and> x \<le> length (pool p) then Inr (pool p ! (x - 1))
      else Inl UndefinedBehaviour)"

definition value_sp :: "range_check \<Rightarrow> 'a stack_pool \<Rightarrow> nat \<Rightarrow> error + 'a" where
  "value_sp chk p x =
     (if chk x end_sp (psize p)
      then (case node p x of Inl e \<Rightarrow> Inl e | Inr n \<Rightarrow> Inr (node_value n))
      else Inl OutOfRange)"

definition next_sp :: "range_check \<Rightarrow> 'a stack_pool \<Rightarrow> nat \<Rightarrow> error + nat" where
  "next_sp chk p x =
     (if chk x end_sp (psize p)
      then (case node p x of Inl e \<Rightarrow> Inl e | Inr n \<Rightarrow> Inr (node_next n))
      else Inl OutOfRange)"

text \<open>
  \<open>value(x)\<close> and \<open>next(x)\<close> return references; the source assigns through them
  (\<open>value(head) = val\<close>, \<open>next(tmp) = s1\<close>). The two assignments are the functions below.
\<close>

definition assign_value :: "range_check \<Rightarrow> 'a stack_pool \<Rightarrow> nat \<Rightarrow> 'a \<Rightarrow> error + 'a stack_pool" where
  "assign_value chk p x v =
     (if chk x end_sp (psize p)
      then (case node p x of
              Inl e \<Rightarrow> Inl e
            | Inr n \<Rightarrow> Inr (p\<lparr>pool := (pool p)[x - 1 := n\<lparr>node_value := v\<rparr>]\<rparr>))
      else Inl OutOfRange)"

definition assign_next :: "range_check \<Rightarrow> 'a stack_pool \<Rightarrow> nat \<Rightarrow> nat \<Rightarrow> error + 'a stack_pool" where
  "assign_next chk p x y =
     (if chk x end_sp (psize p)
      then (case node p x of
              Inl e \<Rightarrow> Inl e
            | Inr n \<Rightarrow> Inr (p\<lparr>pool := (pool p)[x - 1 := n\<lparr>node_next := y\<rparr>]\<rparr>))
      else Inl OutOfRange)"

text \<open>
  The vector operations. \<open>reserve\<close> changes the capacity only when more is asked for than
  there is; \<open>push_back\<close> on a full vector reallocates to \<open>size + max(size, 1)\<close> elements, the
  growth of the GNU library.
\<close>

definition reserve :: "'a stack_pool \<Rightarrow> nat \<Rightarrow> 'a stack_pool" where
  "reserve p n = (if pool_capacity p < n then p\<lparr>pool_capacity := n\<rparr> else p)"

definition stack_pool_n :: "nat \<Rightarrow> 'a stack_pool" where
  "stack_pool_n n = reserve stack_pool_default n"

definition push_back :: "'a stack_pool \<Rightarrow> 'a node_t \<Rightarrow> 'a stack_pool" where
  "push_back p n =
     p\<lparr>pool := pool p @ [n],
       pool_capacity :=
         (if length (pool p) < pool_capacity p then pool_capacity p
          else length (pool p) + max (length (pool p)) 1)\<rparr>"

section \<open>The pool: push, pop, free_stack\<close>

text \<open>
  \<open>_new_first(s1, s2)\<close> takes both indices by reference. The result carries the pool and
  the values of \<open>s1\<close> and \<open>s2\<close> after the call; the caller stores back the one that is the
  member \<open>free_nodes\<close>. Neither \<open>next\<close> nor the assignments read \<open>free_nodes\<close>, and the two
  references never name the same variable, so passing the values is exact.
\<close>

definition new_first ::
  "range_check \<Rightarrow> 'a stack_pool \<Rightarrow> nat \<Rightarrow> nat \<Rightarrow> error + ('a stack_pool \<times> nat \<times> nat)" where
  "new_first chk p s1 s2 =
     (if chk s1 end_sp (psize p)
      then (let tmp = s2 in
            case next_sp chk p s2 of
              Inl e \<Rightarrow> Inl e
            | Inr s2' \<Rightarrow>
                (case assign_next chk p tmp s1 of
                   Inl e \<Rightarrow> Inl e
                 | Inr p' \<Rightarrow> Inr (p', tmp, s2')))
      else Inl OutOfRange)"

text \<open>
  \<open>pop(x)\<close>: \<open>x\<close> is the function's own copy of the argument, bound to \<open>s2\<close>;
  \<open>return x\<close> reads it after \<open>_new_first\<close> has stored into it.
\<close>

definition pop :: "range_check \<Rightarrow> 'a stack_pool \<Rightarrow> nat \<Rightarrow> error + ('a stack_pool \<times> nat)" where
  "pop chk p x =
     (case new_first chk p (free_nodes p) x of
        Inl e \<Rightarrow> Inl e
      | Inr (p', s1, s2) \<Rightarrow> Inr (p'\<lparr>free_nodes := s1\<rparr>, s2))"

text \<open>
  \<open>static_cast<stack_type>(n)\<close> for an unsigned index type of \<open>w\<close> bits and a size \<open>n\<close> of
  the vector.
\<close>

definition to_stack_type :: "nat \<Rightarrow> nat \<Rightarrow> nat" where
  "to_stack_type w n = n mod 2 ^ w"

text \<open>
  \<open>push\<close> forwards to \<open>_push\<close>, whose body this is; \<open>w\<close> is the width of the index type.
  On the path that reuses a node, \<open>static_cast<stack_type>(head)\<close> converts an index to its
  own type and changes nothing.
\<close>

definition push ::
  "range_check \<Rightarrow> nat \<Rightarrow> 'a stack_pool \<Rightarrow> 'a \<Rightarrow> nat \<Rightarrow> error + ('a stack_pool \<times> nat)" where
  "push chk w p val head =
     (if empty_sp (free_nodes p)
      then (let p' = push_back p \<lparr>node_value = val, node_next = head\<rparr>
            in Inr (p', to_stack_type w (length (pool p'))))
      else (case new_first chk p head (free_nodes p) of
              Inl e \<Rightarrow> Inl e
            | Inr (p', head', free') \<Rightarrow>
                (case assign_value chk (p'\<lparr>free_nodes := free'\<rparr>) head' val of
                   Inl e \<Rightarrow> Inl e
                 | Inr p'' \<Rightarrow> Inr (p'', head'))))"

text \<open>
  \<open>_last_jump(x)\<close> walks while \<open>next(x)\<close> is not the end and returns a reference to the
  \<open>next\<close> field of the node it stops at; the model returns that node's index. The walk need
  not end (a chain can be a cycle), so the result is an option: \<open>None\<close> is a walk that
  never returns. The function is \<open>noexcept\<close>: an exception of \<open>next\<close> inside it ends the
  program, which the model reports as that error.
\<close>

partial_function (option) last_jump ::
  "range_check \<Rightarrow> 'a stack_pool \<Rightarrow> nat \<Rightarrow> (error + nat) option" where
  "last_jump chk p x =
     (case next_sp chk p x of
        Inl e \<Rightarrow> Some (Inl e)
      | Inr n \<Rightarrow> if \<not> empty_sp n then last_jump chk p n else Some (Inr x))"

definition free_stack ::
  "range_check \<Rightarrow> 'a stack_pool \<Rightarrow> nat \<Rightarrow> (error + ('a stack_pool \<times> nat)) option" where
  "free_stack chk p x =
     (if chk x end_sp (psize p)
      then (if \<not> empty_sp (free_nodes p)
            then (case last_jump chk p (free_nodes p) of
                    None \<Rightarrow> None
                  | Some (Inl e) \<Rightarrow> Some (Inl e)
                  | Some (Inr l) \<Rightarrow>
                      (case assign_next chk p l x of
                         Inl e \<Rightarrow> Some (Inl e)
                       | Inr p' \<Rightarrow> Some (Inr (p', end_sp))))
            else Some (Inr (p\<lparr>free_nodes := x\<rparr>, end_sp)))
      else Some (Inl OutOfRange))"

section \<open>The iterator\<close>

text \<open>
  \<open>_stack_iterator\<close> holds a pointer to the pool and an index. The pool is not changed
  while an iterator of the functions below is alive, so the iterator carries the pool it
  points to; the null pointer is \<open>None\<close>.
\<close>

record 'a stack_iterator =
  pool_ptr :: "'a stack_pool option"
  index :: nat

definition stack_iterator_ctor ::
  "range_check \<Rightarrow> nat \<Rightarrow> 'a stack_pool option \<Rightarrow> error + 'a stack_iterator" where
  "stack_iterator_ctor chk x my_pool =
     (case my_pool of
        None \<Rightarrow> Inl NullPool
      | Some p \<Rightarrow>
          if chk x end_sp (psize p) then Inr \<lparr>pool_ptr = my_pool, index = x\<rparr>
          else Inl OutOfRange)"

definition deref :: "range_check \<Rightarrow> 'a stack_iterator \<Rightarrow> error + 'a" where
  "deref chk it =
     (case pool_ptr it of
        None \<Rightarrow> Inl UndefinedBehaviour
      | Some p \<Rightarrow> value_sp chk p (index it))"

definition incr :: "range_check \<Rightarrow> 'a stack_iterator \<Rightarrow> error + 'a stack_iterator" where
  "incr chk it =
     (case pool_ptr it of
        None \<Rightarrow> Inl UndefinedBehaviour
      | Some p \<Rightarrow>
          (case next_sp chk p (index it) of
             Inl e \<Rightarrow> Inl e
           | Inr n \<Rightarrow> Inr (it\<lparr>index := n\<rparr>)))"

definition iter_eq :: "'a stack_iterator \<Rightarrow> 'a stack_iterator \<Rightarrow> bool" where
  "iter_eq x y \<longleftrightarrow> index x = index y"

definition iter_ne :: "'a stack_iterator \<Rightarrow> 'a stack_iterator \<Rightarrow> bool" where
  "iter_ne x y \<longleftrightarrow> \<not> iter_eq x y"

definition cbegin :: "range_check \<Rightarrow> 'a stack_pool \<Rightarrow> nat \<Rightarrow> error + 'a stack_iterator" where
  "cbegin chk p x = stack_iterator_ctor chk x (Some p)"

definition cend :: "range_check \<Rightarrow> 'a stack_pool \<Rightarrow> nat \<Rightarrow> error + 'a stack_iterator" where
  "cend chk p x = stack_iterator_ctor chk end_sp (Some p)"

section \<open>Exploring a stack: ssize, reach, print_stack\<close>

partial_function (option) ssize_loop ::
  "range_check \<Rightarrow> 'a stack_iterator \<Rightarrow> 'a stack_iterator \<Rightarrow> nat \<Rightarrow> (error + nat) option" where
  "ssize_loop chk this_node c_end i =
     (if iter_ne this_node c_end
      then (case incr chk this_node of
              Inl e \<Rightarrow> Some (Inl e)
            | Inr this_node' \<Rightarrow> ssize_loop chk this_node' c_end (i + 1))
      else Some (Inr i))"

definition ssize :: "range_check \<Rightarrow> 'a stack_pool \<Rightarrow> nat \<Rightarrow> (error + nat) option" where
  "ssize chk p x =
     (case cend chk p x of
        Inl e \<Rightarrow> Some (Inl e)
      | Inr c_end \<Rightarrow>
          (case cbegin chk p x of
             Inl e \<Rightarrow> Some (Inl e)
           | Inr this_node \<Rightarrow> ssize_loop chk this_node c_end 0))"

text \<open>The loop \<open>for (i = 1; i < m; ++i) x = next(x)\<close> of \<open>reach\<close>.\<close>

function reach_loop :: "range_check \<Rightarrow> 'a stack_pool \<Rightarrow> nat \<Rightarrow> nat \<Rightarrow> nat \<Rightarrow> error + nat" where
  "reach_loop chk p x i m =
     (if i < m
      then (case next_sp chk p x of
              Inl e \<Rightarrow> Inl e
            | Inr x' \<Rightarrow> reach_loop chk p x' (i + 1) m)
      else Inr x)"
  by pat_completeness auto
termination
  by (relation "measure (\<lambda>(chk, p, x, i, m). m - i)") auto

definition reach :: "range_check \<Rightarrow> 'a stack_pool \<Rightarrow> nat \<Rightarrow> nat \<Rightarrow> (error + 'a) option" where
  "reach chk p x m =
     (case ssize chk p x of
        None \<Rightarrow> None
      | Some (Inl e) \<Rightarrow> Some (Inl e)
      | Some (Inr n) \<Rightarrow>
          if chk m end_sp n
          then (case reach_loop chk p x 1 m of
                  Inl e \<Rightarrow> Some (Inl e)
                | Inr x' \<Rightarrow> Some (value_sp chk p x'))
          else Some (Inl OutOfRange))"

text \<open>
  \<open>print_stack\<close> writes the value under the iterator at every step of the traversal; the
  model returns the values written, in order.
\<close>

partial_function (option) print_loop ::
  "range_check \<Rightarrow> 'a stack_iterator \<Rightarrow> 'a stack_iterator \<Rightarrow> 'a list \<Rightarrow> (error + 'a list) option" where
  "print_loop chk this_node c_end out =
     (if iter_ne this_node c_end
      then (case deref chk this_node of
              Inl e \<Rightarrow> Some (Inl e)
            | Inr v \<Rightarrow>
                (case incr chk this_node of
                   Inl e \<Rightarrow> Some (Inl e)
                 | Inr this_node' \<Rightarrow> print_loop chk this_node' c_end (out @ [v])))
      else Some (Inr out))"

definition print_stack :: "range_check \<Rightarrow> 'a stack_pool \<Rightarrow> nat \<Rightarrow> (error + 'a list) option" where
  "print_stack chk p x =
     (case cend chk p x of
        Inl e \<Rightarrow> Some (Inl e)
      | Inr c_end \<Rightarrow>
          (case cbegin chk p x of
             Inl e \<Rightarrow> Some (Inl e)
           | Inr this_node \<Rightarrow> print_loop chk this_node c_end []))"

section \<open>Chains, runs and example pools\<close>

text \<open>
  \<open>is_chain p h xs\<close>: following the \<open>next\<close> fields from the index \<open>h\<close> visits exactly the
  nodes \<open>xs\<close>, every one of them inside the pool, and then reaches the end. A stack with
  head \<open>h\<close>, and the stack of free nodes, are chains in a pool that has been used through
  heads only.
\<close>

fun is_chain :: "'a stack_pool \<Rightarrow> nat \<Rightarrow> nat list \<Rightarrow> bool" where
  "is_chain p h [] \<longleftrightarrow> h = 0"
| "is_chain p h (x # xs) \<longleftrightarrow>
     h = x \<and> 1 \<le> x \<and> x \<le> length (pool p) \<and> is_chain p (node_next (pool p ! (x - 1))) xs"

definition valof :: "'a stack_pool \<Rightarrow> nat \<Rightarrow> 'a" where
  "valof p x = node_value (pool p ! (x - 1))"

text \<open>
  A caller that builds a stack pushes each element onto the head returned by the push
  before, and stops at the first exception.
\<close>

fun push_all ::
  "range_check \<Rightarrow> nat \<Rightarrow> 'a stack_pool \<Rightarrow> nat \<Rightarrow> 'a list \<Rightarrow> error + ('a stack_pool \<times> nat)" where
  "push_all chk w p h [] = Inr (p, h)"
| "push_all chk w p h (v # vs) =
     (case push chk w p v h of
        Inl e \<Rightarrow> Inl e
      | Inr (p', h') \<Rightarrow> push_all chk w p' h' vs)"

text \<open>
  The caller then traverses the stack it has built, from the head the last push returned,
  as \<open>print_stack\<close> does.
\<close>

definition build_and_print ::
  "range_check \<Rightarrow> nat \<Rightarrow> 'a stack_pool \<Rightarrow> 'a list \<Rightarrow> (error + 'a list) option" where
  "build_and_print chk w p vs =
     (case push_all chk w p new_stack vs of
        Inl e \<Rightarrow> Some (Inl e)
      | Inr (p', h') \<Rightarrow> print_stack chk p' h')"

text \<open>
  The operations that change a pool, and a run of them on one pool. A run stops at the
  first operation that throws, has no defined behaviour or does not return. Every range
  check of an operation comes before its first write, so a caller that catches the
  exception goes on with the pool as it was: what follows is another run from that pool.
\<close>

datatype 'a operation = Push 'a nat | Pop nat | Free_stack nat | Reserve nat

fun apply_operation ::
  "range_check \<Rightarrow> nat \<Rightarrow> 'a stack_pool \<Rightarrow> 'a operation \<Rightarrow> (error + 'a stack_pool) option" where
  "apply_operation chk w p (Push v h) =
     (case push chk w p v h of Inl e \<Rightarrow> Some (Inl e) | Inr (p', r) \<Rightarrow> Some (Inr p'))"
| "apply_operation chk w p (Pop h) =
     (case pop chk p h of Inl e \<Rightarrow> Some (Inl e) | Inr (p', r) \<Rightarrow> Some (Inr p'))"
| "apply_operation chk w p (Free_stack h) =
     (case free_stack chk p h of
        None \<Rightarrow> None
      | Some (Inl e) \<Rightarrow> Some (Inl e)
      | Some (Inr (p', r)) \<Rightarrow> Some (Inr p'))"
| "apply_operation chk w p (Reserve n) = Some (Inr (reserve p n))"

fun run ::
  "range_check \<Rightarrow> nat \<Rightarrow> 'a stack_pool \<Rightarrow> 'a operation list \<Rightarrow> (error + 'a stack_pool) option" where
  "run chk w p [] = Some (Inr p)"
| "run chk w p (c # cs) =
     (case apply_operation chk w p c of
        None \<Rightarrow> None
      | Some (Inl e) \<Rightarrow> Some (Inl e)
      | Some (Inr p') \<Rightarrow> run chk w p' cs)"

text \<open>
  Pools for the examples. \<open>pool_3\<close> is the pool after \<open>push(10, 0)\<close>, \<open>push(20, 1)\<close>,
  \<open>push(30, 2)\<close> on a new pool: one stack \<open>3, 2, 1\<close>, no free node.
  \<open>pool_free\<close> holds the stack \<open>2\<close> and the free nodes \<open>3, 1\<close>.
\<close>

definition pool_3 :: "nat stack_pool" where
  "pool_3 = \<lparr>pool = [\<lparr>node_value = 10, node_next = 0\<rparr>, \<lparr>node_value = 20, node_next = 1\<rparr>,
                      \<lparr>node_value = 30, node_next = 2\<rparr>],
             pool_capacity = 4, free_nodes = 0\<rparr>"

text \<open>
  \<open>pool_255\<close> is a pool of \<open>stack_pool<T, uint8_t>\<close> after 255 pushes onto one stack: the
  node \<open>i\<close> points to the node \<open>i - 1\<close>, the head is \<open>255\<close>, the largest index of the type, and
  no node is free.
\<close>

definition pool_255 :: "nat stack_pool" where
  "pool_255 = \<lparr>pool = map (\<lambda>i. \<lparr>node_value = 7, node_next = i\<rparr>) [0..<255],
               pool_capacity = 256, free_nodes = 0\<rparr>"

definition pool_free :: "nat stack_pool" where
  "pool_free = \<lparr>pool = [\<lparr>node_value = 10, node_next = 0\<rparr>, \<lparr>node_value = 20, node_next = 0\<rparr>,
                         \<lparr>node_value = 30, node_next = 1\<rparr>],
                pool_capacity = 4, free_nodes = 3\<rparr>"

section \<open>Node access under the closed range check\<close>

lemma next_sp_in:
  "1 \<le> x \<Longrightarrow> x \<le> psize p \<Longrightarrow>
   next_sp AP_ERROR_IN_RANGE p x = Inr (node_next (pool p ! (x - 1)))"
  by (simp add: next_sp_def AP_ERROR_IN_RANGE_def end_sp_def psize_def node_def)

lemma value_sp_in:
  "1 \<le> x \<Longrightarrow> x \<le> psize p \<Longrightarrow>
   value_sp AP_ERROR_IN_RANGE p x = Inr (node_value (pool p ! (x - 1)))"
  by (simp add: value_sp_def AP_ERROR_IN_RANGE_def end_sp_def psize_def node_def)

lemma value_sp_out: "psize p < x \<Longrightarrow> value_sp AP_ERROR_IN_RANGE p x = Inl OutOfRange"
  by (simp add: value_sp_def AP_ERROR_IN_RANGE_def)

lemma next_sp_out: "psize p < x \<Longrightarrow> next_sp AP_ERROR_IN_RANGE p x = Inl OutOfRange"
  by (simp add: next_sp_def AP_ERROR_IN_RANGE_def)

lemma assign_next_in:
  "1 \<le> x \<Longrightarrow> x \<le> psize p \<Longrightarrow>
   assign_next AP_ERROR_IN_RANGE p x y =
     Inr (p\<lparr>pool := (pool p)[x - 1 := (pool p ! (x - 1))\<lparr>node_next := y\<rparr>]\<rparr>)"
  by (simp add: assign_next_def AP_ERROR_IN_RANGE_def end_sp_def psize_def node_def)

lemma assign_value_in:
  "1 \<le> x \<Longrightarrow> x \<le> psize p \<Longrightarrow>
   assign_value AP_ERROR_IN_RANGE p x v =
     Inr (p\<lparr>pool := (pool p)[x - 1 := (pool p ! (x - 1))\<lparr>node_value := v\<rparr>]\<rparr>)"
  by (simp add: assign_value_def AP_ERROR_IN_RANGE_def end_sp_def psize_def node_def)

lemma new_first_in:
  "s1 \<le> psize p \<Longrightarrow> 1 \<le> s2 \<Longrightarrow> s2 \<le> psize p \<Longrightarrow>
   new_first AP_ERROR_IN_RANGE p s1 s2 =
     Inr (p\<lparr>pool := (pool p)[s2 - 1 := (pool p ! (s2 - 1))\<lparr>node_next := s1\<rparr>]\<rparr>,
          s2, node_next (pool p ! (s2 - 1)))"
  by (simp add: new_first_def next_sp_in assign_next_in) (simp add: AP_ERROR_IN_RANGE_def end_sp_def)

text \<open>
  Whatever the range check is: when it lets the end iterator be constructed, it lets
  the index \<open>0\<close> through in \<open>value\<close> and \<open>next\<close> as well, since the three calls have the
  same arguments, and the access that follows is outside the vector.
\<close>

lemma sentinel_check_shared:
  assumes "stack_iterator_ctor chk end_sp (Some p) = Inr it"
  shows "value_sp chk p end_sp = Inl UndefinedBehaviour
         \<and> next_sp chk p end_sp = Inl UndefinedBehaviour
         \<and> deref chk it = Inl UndefinedBehaviour"
  using assms
  by (auto simp: stack_iterator_ctor_def value_sp_def next_sp_def deref_def node_def end_sp_def
      split: if_splits)

section \<open>Push and pop step by step\<close>

lemma to_stack_type_fits: "n < 2 ^ w \<Longrightarrow> to_stack_type w n = n"
  by (simp add: to_stack_type_def)

lemma push_fresh:
  "empty_sp (free_nodes p) \<Longrightarrow>
   push chk w p v h =
     Inr (push_back p \<lparr>node_value = v, node_next = h\<rparr>, to_stack_type w (Suc (psize p)))"
  by (simp add: push_def Let_def push_back_def psize_def)

lemma push_recycle:
  assumes "\<not> empty_sp (free_nodes p)" and "free_nodes p \<le> psize p" and "h \<le> psize p"
  shows "push AP_ERROR_IN_RANGE w p v h =
           Inr (p\<lparr>pool := (pool p)[free_nodes p - 1 :=
                       (pool p ! (free_nodes p - 1))\<lparr>node_next := h, node_value := v\<rparr>],
                  free_nodes := node_next (pool p ! (free_nodes p - 1))\<rparr>,
                free_nodes p)"
proof -
  from assms have f: "1 \<le> free_nodes p" by (simp add: empty_sp_def end_sp_def)
  show ?thesis
    using assms f
    by (simp add: push_def new_first_in assign_value_in psize_def)
qed

lemma push_recycle_out:
  "\<not> empty_sp (free_nodes p) \<Longrightarrow> psize p < h \<Longrightarrow> push AP_ERROR_IN_RANGE w p v h = Inl OutOfRange"
  by (simp add: push_def new_first_def AP_ERROR_IN_RANGE_def)

lemma pop_props:
  assumes "1 \<le> h" and "h \<le> psize p" and "free_nodes p \<le> psize p"
  shows "\<exists>p' r. pop AP_ERROR_IN_RANGE p h = Inr (p', r) \<and> psize p' = psize p
           \<and> free_nodes p' = h \<and> node_next (pool p' ! (h - 1)) = free_nodes p"
  using assms by (simp add: pop_def new_first_in psize_def)

lemma pop_success:
  assumes "pop AP_ERROR_IN_RANGE p h = Inr (p', r)"
  shows "1 \<le> h \<and> h \<le> psize p \<and> free_nodes p \<le> psize p"
  using assms
  by (auto simp: pop_def new_first_def next_sp_def node_def AP_ERROR_IN_RANGE_def psize_def Let_def
      split: sum.splits if_splits)

lemma push_recycle_props:
  assumes "1 \<le> free_nodes p" and "free_nodes p \<le> psize p" and "h \<le> psize p"
  shows "\<exists>p'. push AP_ERROR_IN_RANGE w p v h = Inr (p', free_nodes p) \<and> psize p' = psize p
           \<and> free_nodes p' = node_next (pool p ! (free_nodes p - 1))"
proof -
  from assms(1) have "\<not> empty_sp (free_nodes p)" by (simp add: empty_sp_def end_sp_def)
  from push_recycle [OF this assms(2) assms(3), of w v] show ?thesis by (simp add: psize_def)
qed

section \<open>Chains\<close>

lemma is_chain_head_le: "is_chain p h xs \<Longrightarrow> h \<le> psize p"
  by (cases xs) (simp_all add: psize_def)

lemma is_chain_mem: "is_chain p h xs \<Longrightarrow> x \<in> set xs \<Longrightarrow> 1 \<le> x \<and> x \<le> length (pool p)"
  by (induction xs arbitrary: h) auto

lemma is_chain_last:
  "is_chain p h xs \<Longrightarrow> xs \<noteq> [] \<Longrightarrow> 1 \<le> last xs \<and> last xs \<le> psize p"
  by (induction xs arbitrary: h) (auto simp: psize_def)

lemma is_chain_last_next:
  "is_chain p h xs \<Longrightarrow> xs \<noteq> [] \<Longrightarrow> node_next (pool p ! (last xs - 1)) = 0"
  by (induction xs arbitrary: h) auto

text \<open>A chain stays a chain when the vector grows at its end.\<close>

lemma is_chain_frame:
  "is_chain p h xs \<Longrightarrow> length (pool p) \<le> length (pool q) \<Longrightarrow>
   (\<And>x. x \<in> set xs \<Longrightarrow> node_next (pool q ! (x - 1)) = node_next (pool p ! (x - 1))) \<Longrightarrow>
   is_chain q h xs"
  by (induction xs arbitrary: h) auto

text \<open>A chain stays a chain when a node outside it is overwritten.\<close>

lemma is_chain_update:
  "is_chain p h xs \<Longrightarrow> f \<notin> set xs \<Longrightarrow> 1 \<le> f \<Longrightarrow> pool q = (pool p)[f - 1 := n] \<Longrightarrow>
   is_chain q h xs"
proof (induction xs arbitrary: h)
  case Nil
  then show ?case by simp
next
  case (Cons x xs)
  from Cons.prems have "x - 1 \<noteq> f - 1" by auto
  then have "pool q ! (x - 1) = pool p ! (x - 1)"
    using Cons.prems(4) by simp
  with Cons show ?case by simp
qed

text \<open>The \<open>next\<close> fields determine the chain of a head, so no node occurs twice in it.\<close>

lemma is_chain_unique: "is_chain p h xs \<Longrightarrow> is_chain p h ys \<Longrightarrow> xs = ys"
proof (induction xs arbitrary: h ys)
  case Nil
  then show ?case by (cases ys) auto
next
  case (Cons x xs)
  then show ?case by (cases ys) auto
qed

lemma is_chain_suffix: "is_chain p h (as @ x # bs) \<Longrightarrow> is_chain p x (x # bs)"
  by (induction as arbitrary: h) auto

lemma is_chain_distinct: "is_chain p h xs \<Longrightarrow> distinct xs"
proof (induction xs arbitrary: h)
  case Nil
  then show ?case by simp
next
  case (Cons x xs)
  have "x \<notin> set xs"
  proof
    assume "x \<in> set xs"
    then obtain as bs where xs: "xs = as @ x # bs" by (auto simp: in_set_conv_decomp)
    from Cons.prems have c1: "is_chain p x (x # xs)" by simp
    from Cons.prems xs have "is_chain p (node_next (pool p ! (x - 1))) (as @ x # bs)" by simp
    then have "is_chain p x (x # bs)" by (rule is_chain_suffix)
    with c1 have "x # xs = x # bs" by (rule is_chain_unique)
    with xs show False by simp
  qed
  moreover have "distinct xs"
  proof (rule Cons.IH)
    from Cons.prems show "is_chain p (node_next (pool p ! (x - 1))) xs" by simp
  qed
  ultimately show ?case by simp
qed

section \<open>The loops on a chain\<close>

lemma last_jump_chain:
  "is_chain p h xs \<Longrightarrow> xs \<noteq> [] \<Longrightarrow> last_jump AP_ERROR_IN_RANGE p h = Some (Inr (last xs))"
proof (induction xs arbitrary: h)
  case Nil
  then show ?case by simp
next
  case (Cons x xs)
  from Cons.prems have hx: "h = x" "1 \<le> x" "x \<le> psize p"
    and tl: "is_chain p (node_next (pool p ! (x - 1))) xs"
    by (simp_all add: psize_def)
  show ?case
  proof (cases xs)
    case Nil
    with tl have "node_next (pool p ! (x - 1)) = 0" by simp
    with hx Nil show ?thesis
      by (subst last_jump.simps) (simp add: next_sp_in empty_sp_def end_sp_def)
  next
    case (Cons y ys)
    with tl have "node_next (pool p ! (x - 1)) = y" "1 \<le> y" by simp_all
    moreover have "last_jump AP_ERROR_IN_RANGE p (node_next (pool p ! (x - 1))) = Some (Inr (last xs))"
      using Cons.IH [OF tl] Cons by simp
    ultimately show ?thesis using hx Cons
      by (subst last_jump.simps) (simp add: next_sp_in empty_sp_def end_sp_def)
  qed
qed

lemma incr_in:
  "1 \<le> x \<Longrightarrow> x \<le> psize p \<Longrightarrow>
   incr AP_ERROR_IN_RANGE \<lparr>pool_ptr = Some p, index = x\<rparr> =
     Inr \<lparr>pool_ptr = Some p, index = node_next (pool p ! (x - 1))\<rparr>"
  by (simp add: incr_def next_sp_in)

lemma deref_in:
  "1 \<le> x \<Longrightarrow> x \<le> psize p \<Longrightarrow>
   deref AP_ERROR_IN_RANGE \<lparr>pool_ptr = Some p, index = x\<rparr> = Inr (node_value (pool p ! (x - 1)))"
  by (simp add: deref_def value_sp_in)

lemma ctor_in:
  "x \<le> psize p \<Longrightarrow>
   stack_iterator_ctor AP_ERROR_IN_RANGE x (Some p) = Inr \<lparr>pool_ptr = Some p, index = x\<rparr>"
  by (simp add: stack_iterator_ctor_def AP_ERROR_IN_RANGE_def end_sp_def)

lemma ctor_out:
  "psize p < x \<Longrightarrow> stack_iterator_ctor AP_ERROR_IN_RANGE x (Some p) = Inl OutOfRange"
  by (simp add: stack_iterator_ctor_def AP_ERROR_IN_RANGE_def)

lemma ssize_loop_chain:
  "is_chain p h xs \<Longrightarrow>
   ssize_loop AP_ERROR_IN_RANGE \<lparr>pool_ptr = Some p, index = h\<rparr> \<lparr>pool_ptr = Some p, index = 0\<rparr> i =
     Some (Inr (i + length xs))"
proof (induction xs arbitrary: h i)
  case Nil
  then show ?case by (subst ssize_loop.simps) (simp add: iter_ne_def iter_eq_def)
next
  case (Cons x xs)
  then show ?case
    by (subst ssize_loop.simps) (simp add: iter_ne_def iter_eq_def incr_in psize_def)
qed

lemma ssize_chain: "is_chain p h xs \<Longrightarrow> ssize AP_ERROR_IN_RANGE p h = Some (Inr (length xs))"
  using ssize_loop_chain [of p h xs 0] is_chain_head_le [of p h xs]
  by (simp add: ssize_def cend_def cbegin_def ctor_in end_sp_def)

lemma print_loop_chain:
  "is_chain p h xs \<Longrightarrow>
   print_loop AP_ERROR_IN_RANGE \<lparr>pool_ptr = Some p, index = h\<rparr> \<lparr>pool_ptr = Some p, index = 0\<rparr> out =
     Some (Inr (out @ map (valof p) xs))"
proof (induction xs arbitrary: h out)
  case Nil
  then show ?case by (subst print_loop.simps) (simp add: iter_ne_def iter_eq_def)
next
  case (Cons x xs)
  then show ?case
    by (subst print_loop.simps)
       (simp add: iter_ne_def iter_eq_def incr_in deref_in psize_def valof_def)
qed

lemma print_stack_chain:
  "is_chain p h xs \<Longrightarrow> print_stack AP_ERROR_IN_RANGE p h = Some (Inr (map (valof p) xs))"
  using print_loop_chain [of p h xs "[]"] is_chain_head_le [of p h xs]
  by (simp add: print_stack_def cend_def cbegin_def ctor_in end_sp_def)

lemma reach_loop_done: "\<not> i < m \<Longrightarrow> reach_loop chk p x i m = Inr x"
  by (subst reach_loop.simps) simp

section \<open>Pushing onto a chain\<close>

text \<open>
  One push on a pool whose free nodes form a chain that shares no node with the stack;
  when no node is free, the size after the append has to fit the index type. The new
  head is in front of the old stack, carries the pushed value, and the free nodes are
  still a chain apart from the stack.
\<close>

lemma push_chain_step:
  assumes fr: "is_chain p (free_nodes p) fs"
    and st: "is_chain p h hs"
    and dj: "set hs \<inter> set fs = {}"
    and fit: "fs = [] \<longrightarrow> Suc (psize p) < 2 ^ w"
  shows "\<exists>p' h' fs'. push AP_ERROR_IN_RANGE w p v h = Inr (p', h')
           \<and> is_chain p' (free_nodes p') fs' \<and> is_chain p' h' (h' # hs)
           \<and> set (h' # hs) \<inter> set fs' = {}
           \<and> map (valof p') (h' # hs) = v # map (valof p) hs
           \<and> length fs' = length fs - 1
           \<and> psize p' = (if fs = [] then Suc (psize p) else psize p)"
proof (cases fs)
  case Nil
  with fr have e: "empty_sp (free_nodes p)" by (simp add: empty_sp_def end_sp_def)
  let ?q = "push_back p \<lparr>node_value = v, node_next = h\<rparr>"
  have pq: "pool ?q = pool p @ [\<lparr>node_value = v, node_next = h\<rparr>]" "free_nodes ?q = free_nodes p"
    by (simp_all add: push_back_def)
  have same: "pool ?q ! (x - 1) = pool p ! (x - 1)" if "x \<in> set hs" for x
  proof -
    from is_chain_mem [OF st that] have "x - 1 < length (pool p)" by auto
    then show ?thesis by (simp add: pq nth_append)
  qed
  have "is_chain ?q h hs"
  proof (rule is_chain_frame [OF st])
    show "length (pool p) \<le> length (pool ?q)" by (simp add: pq)
  next
    fix x assume "x \<in> set hs"
    then show "node_next (pool ?q ! (x - 1)) = node_next (pool p ! (x - 1))"
      by (simp only: same)
  qed
  then have c: "is_chain ?q (Suc (psize p)) (Suc (psize p) # hs)"
    by (simp add: pq psize_def)
  have vals: "map (valof ?q) (Suc (psize p) # hs) = v # map (valof p) hs"
    using same by (simp add: valof_def pq psize_def)
  have fq: "is_chain ?q (free_nodes ?q) []" using fr Nil by (simp add: pq)
  have dq: "set (Suc (psize p) # hs) \<inter> set [] = {}" by simp
  have len: "length ([] :: nat list) = length fs - 1" using Nil by simp
  have sz: "psize ?q = (if fs = [] then Suc (psize p) else psize p)"
    using Nil by (simp add: pq psize_def)
  from fit Nil have "Suc (psize p) < 2 ^ w" by simp
  then have "to_stack_type w (Suc (psize p)) = Suc (psize p)"
    by (rule to_stack_type_fits)
  with push_fresh [OF e, of AP_ERROR_IN_RANGE w v h]
  have pf: "push AP_ERROR_IN_RANGE w p v h = Inr (?q, Suc (psize p))" by simp
  show ?thesis
    by (rule exI [of _ ?q], rule exI [of _ "Suc (psize p)"], rule exI [of _ "[]"])
       (intro conjI pf fq c dq vals len sz)
next
  case (Cons f fs')
  with fr have f: "free_nodes p = f" "1 \<le> f" "f \<le> length (pool p)"
    and tl: "is_chain p (node_next (pool p ! (f - 1))) fs'" by simp_all
  from f have ne: "\<not> empty_sp (free_nodes p)" by (simp add: empty_sp_def end_sp_def)
  let ?q = "p\<lparr>pool := (pool p)[f - 1 := (pool p ! (f - 1))\<lparr>node_next := h, node_value := v\<rparr>],
               free_nodes := node_next (pool p ! (f - 1))\<rparr>"
  have ps: "push AP_ERROR_IN_RANGE w p v h = Inr (?q, f)"
    using push_recycle [OF ne, of h w v] f is_chain_head_le [OF st] by (simp add: psize_def)
  from is_chain_distinct [OF fr] Cons have fnot: "f \<notin> set fs'" by simp
  from dj Cons have fnoth: "f \<notin> set hs" by auto
  have c1: "is_chain ?q (node_next (pool p ! (f - 1))) fs'"
    by (rule is_chain_update [OF tl fnot f(2)]) simp
  have c2: "is_chain ?q h hs"
    by (rule is_chain_update [OF st fnoth f(2)]) simp
  have c3: "is_chain ?q f (f # hs)" using c2 f by simp
  have vq: "valof ?q x = valof p x" if "x \<in> set hs" for x
  proof -
    from that fnoth is_chain_mem [OF st that] have "1 \<le> x" "x \<noteq> f" by auto
    with f(2) have "x - 1 \<noteq> f - 1" by auto
    then show ?thesis by (simp add: valof_def)
  qed
  have vf: "valof ?q f = v" using f by (simp add: valof_def)
  have vals: "map (valof ?q) (f # hs) = v # map (valof p) hs"
    using vq vf by simp
  have dq: "set (f # hs) \<inter> set fs' = {}" using dj Cons fnot by auto
  have c1': "is_chain ?q (free_nodes ?q) fs'" using c1 by simp
  have len: "length fs' = length fs - 1" using Cons by simp
  have sz: "psize ?q = (if fs = [] then Suc (psize p) else psize p)"
    using Cons by (simp add: psize_def)
  show ?thesis
    by (rule exI [of _ ?q], rule exI [of _ f], rule exI [of _ fs'])
       (intro conjI ps c1' c3 dq vals len sz)
qed

text \<open>
  A run of pushes reuses the free nodes first and appends after that; the size it ends
  with has to fit the index type.
\<close>

lemma push_all_chain:
  assumes "is_chain p (free_nodes p) fs" and "is_chain p h hs" and "set hs \<inter> set fs = {}"
    and "psize p + (length vs - length fs) < 2 ^ w"
  shows "\<exists>p' h' hs'. push_all AP_ERROR_IN_RANGE w p h vs = Inr (p', h')
           \<and> is_chain p' h' hs' \<and> map (valof p') hs' = rev vs @ map (valof p) hs"
  using assms
proof (induction vs arbitrary: p h hs fs)
  case Nil
  then show ?case by auto
next
  case (Cons v vs)
  have fit: "fs = [] \<longrightarrow> Suc (psize p) < 2 ^ w"
  proof
    assume "fs = []"
    with Cons.prems(4) have "psize p + Suc (length vs) < 2 ^ w" by simp
    then show "Suc (psize p) < 2 ^ w" by arith
  qed
  from push_chain_step [OF Cons.prems(1) Cons.prems(2) Cons.prems(3) fit, of v]
  obtain p1 h1 fs1 where s: "push AP_ERROR_IN_RANGE w p v h = Inr (p1, h1)"
    "is_chain p1 (free_nodes p1) fs1" "is_chain p1 h1 (h1 # hs)"
    "set (h1 # hs) \<inter> set fs1 = {}" "map (valof p1) (h1 # hs) = v # map (valof p) hs"
    "length fs1 = length fs - 1" "psize p1 = (if fs = [] then Suc (psize p) else psize p)"
    by (elim exE conjE)
  have b: "psize p1 + (length vs - length fs1) < 2 ^ w"
  proof (cases fs)
    case Nil
    with s(6) s(7) Cons.prems(4) show ?thesis by simp
  next
    case (Cons f fs')
    with s(6) s(7) \<open>psize p + (length (v # vs) - length fs) < 2 ^ w\<close> show ?thesis by simp
  qed
  from Cons.IH [OF s(2) s(3) s(4) b]
  obtain p' h' hs' where r: "push_all AP_ERROR_IN_RANGE w p1 h1 vs = Inr (p', h')"
    "is_chain p' h' hs'" "map (valof p') hs' = rev vs @ map (valof p1) (h1 # hs)"
    by blast
  from s(1) r(1) have "push_all AP_ERROR_IN_RANGE w p h (v # vs) = Inr (p', h')" by simp
  moreover from r(3) s(5) have "map (valof p') hs' = rev (v # vs) @ map (valof p) hs" by simp
  ultimately show ?case using r(2) by blast
qed

text \<open>What \<open>free_stack\<close> does when a node is free and the free nodes form a chain.\<close>

lemma free_stack_nonempty:
  assumes "is_chain p (free_nodes p) fs" and "\<not> empty_sp (free_nodes p)" and "h \<le> psize p"
  shows "free_stack AP_ERROR_IN_RANGE p h =
          Some (Inr (p\<lparr>pool := (pool p)[last fs - 1 :=
                           (pool p ! (last fs - 1))\<lparr>node_next := h\<rparr>]\<rparr>, end_sp))"
proof -
  from assms have ne: "fs \<noteq> []" by (cases fs) (auto simp: empty_sp_def end_sp_def)
  from assms is_chain_last [OF assms(1) ne] last_jump_chain [OF assms(1) ne]
  show ?thesis
    by (simp add: free_stack_def assign_next_in) (simp add: AP_ERROR_IN_RANGE_def end_sp_def)
qed

section \<open>Size and capacity under each operation\<close>

lemma assign_next_shape:
  "assign_next chk p x y = Inr p' \<Longrightarrow>
   length (pool p') = length (pool p) \<and> pool_capacity p' = pool_capacity p
   \<and> free_nodes p' = free_nodes p"
  by (auto simp: assign_next_def split: if_splits sum.splits)

lemma assign_value_shape:
  "assign_value chk p x v = Inr p' \<Longrightarrow>
   length (pool p') = length (pool p) \<and> pool_capacity p' = pool_capacity p
   \<and> free_nodes p' = free_nodes p"
  by (auto simp: assign_value_def split: if_splits sum.splits)

lemma new_first_shape:
  "new_first chk p s1 s2 = Inr (p', a, b) \<Longrightarrow>
   length (pool p') = length (pool p) \<and> pool_capacity p' = pool_capacity p"
  by (auto simp: new_first_def Let_def split: if_splits sum.splits dest: assign_next_shape)

lemma pop_shape:
  "pop chk p x = Inr (p', r) \<Longrightarrow>
   length (pool p') = length (pool p) \<and> pool_capacity p' = pool_capacity p"
  by (auto simp: pop_def split: sum.splits prod.splits dest: new_first_shape)

lemma push_back_shape:
  "length (pool (push_back p n)) = Suc (length (pool p))
   \<and> pool_capacity p \<le> pool_capacity (push_back p n)
   \<and> Suc (length (pool p)) \<le> pool_capacity (push_back p n)"
  by (simp add: push_back_def)

lemma push_shape:
  assumes "push chk w p v h = Inr (p', r)"
  shows "length (pool p) \<le> length (pool p') \<and> pool_capacity p \<le> pool_capacity p'
         \<and> (length (pool p) \<le> pool_capacity p \<longrightarrow> length (pool p') \<le> pool_capacity p')"
proof (cases "empty_sp (free_nodes p)")
  case True
  with assms have "p' = push_back p \<lparr>node_value = v, node_next = h\<rparr>"
    by (simp add: push_def Let_def)
  with push_back_shape [of p "\<lparr>node_value = v, node_next = h\<rparr>"] show ?thesis by simp
next
  case False
  with assms obtain q a b where nf: "new_first chk p h (free_nodes p) = Inr (q, a, b)"
    and av: "assign_value chk (q\<lparr>free_nodes := b\<rparr>) a v = Inr p'"
    by (auto simp: push_def split: sum.splits prod.splits)
  from new_first_shape [OF nf] assign_value_shape [OF av] show ?thesis by simp
qed

lemma free_stack_shape:
  "free_stack chk p x = Some (Inr (p', r)) \<Longrightarrow>
   length (pool p') = length (pool p) \<and> pool_capacity p' = pool_capacity p"
  by (auto simp: free_stack_def split: if_splits option.splits sum.splits dest: assign_next_shape)

lemma reserve_shape:
  "length (pool (reserve p n)) = length (pool p)
   \<and> pool_capacity p \<le> pool_capacity (reserve p n)
   \<and> n \<le> pool_capacity (reserve p n)"
  by (simp add: reserve_def)

lemma apply_operation_shape:
  assumes "apply_operation chk w p c = Some (Inr p')"
  shows "psize p \<le> psize p' \<and> capacity p \<le> capacity p'
         \<and> (psize p \<le> capacity p \<longrightarrow> psize p' \<le> capacity p')"
proof (cases c)
  case (Push v h)
  with assms obtain r where "push chk w p v h = Inr (p', r)"
    by (auto split: sum.splits prod.splits)
  from push_shape [OF this] show ?thesis by (simp add: psize_def capacity_def)
next
  case (Pop h)
  with assms obtain r where "pop chk p h = Inr (p', r)"
    by (auto split: sum.splits prod.splits)
  from pop_shape [OF this] show ?thesis by (simp add: psize_def capacity_def)
next
  case (Free_stack h)
  with assms obtain r where "free_stack chk p h = Some (Inr (p', r))"
    by (auto split: option.splits sum.splits prod.splits)
  from free_stack_shape [OF this] show ?thesis by (simp add: psize_def capacity_def)
next
  case (Reserve n)
  with assms have "p' = reserve p n" by simp
  with reserve_shape [of p n] show ?thesis by (auto simp add: psize_def capacity_def)
qed

text \<open>Both constructors give a pool whose capacity covers its size.\<close>

lemma constructors_capacity:
  "psize (stack_pool_default :: 'a stack_pool) \<le> capacity (stack_pool_default :: 'a stack_pool)
   \<and> psize (stack_pool_n n :: 'a stack_pool) \<le> capacity (stack_pool_n n :: 'a stack_pool)"
  by (simp add: stack_pool_default_def stack_pool_n_def reserve_def psize_def capacity_def)

text \<open>\<open>pool_3\<close> is what three pushes make of a new pool.\<close>

lemma pool_3_built:
  "push_all AP_ERROR_IN_RANGE 8 stack_pool_default new_stack [10, 20, 30] = Inr (pool_3, 3)"
  by (simp add: pool_3_def stack_pool_default_def new_stack_def push_def push_back_def
      to_stack_type_def empty_sp_def end_sp_def Let_def)

text \<open>\<open>pool_255\<close> has 255 nodes, and its stack with head \<open>255\<close> is a chain through all of them.\<close>

lemma pool_255_size: "psize pool_255 = 255"
  by (simp add: pool_255_def psize_def)

lemma pool_255_chain_from:
  "n \<le> 255 \<Longrightarrow> is_chain pool_255 n (rev [1..<Suc n])"
proof (induction n)
  case 0
  then show ?case by simp
next
  case (Suc n)
  then have "node_next (pool pool_255 ! n) = n"
    by (simp add: pool_255_def)
  with Suc show ?case by (simp add: pool_255_def)
qed

section \<open>The claims\<close>

subsection \<open>C1: what pop returns\<close>

text \<open>
  Claim C1, as amended. For every pool whose \<open>free_nodes\<close> is an index of the pool or
  the end, and every head \<open>h\<close> with \<open>1 \<le> h \<le> size()\<close>: \<open>pop(h)\<close> makes the node at \<open>h\<close> the
  new head of the free nodes (its \<open>next\<close> becomes the old \<open>free_nodes\<close>, and \<open>free_nodes\<close>
  becomes \<open>h\<close>) and returns the new head of the stack, which is \<open>next(h)\<close> as it was before
  the call. It does not return \<open>h\<close>.
\<close>

theorem pop_returns_next:
  assumes "1 \<le> h" and "h \<le> psize p" and "free_nodes p \<le> psize p"
  shows "pop AP_ERROR_IN_RANGE p h =
           Inr (p\<lparr>pool := (pool p)[h - 1 := (pool p ! (h - 1))\<lparr>node_next := free_nodes p\<rparr>],
                  free_nodes := h\<rparr>,
                node_next (pool p ! (h - 1)))
         \<and> next_sp AP_ERROR_IN_RANGE p h = Inr (node_next (pool p ! (h - 1)))"
  using assms by (simp add: pop_def new_first_in next_sp_in)

theorem pop_returns_next_witness:
  "pop AP_ERROR_IN_RANGE pool_free 2 =
     Inr (\<lparr>pool = [\<lparr>node_value = 10, node_next = 0\<rparr>, \<lparr>node_value = 20, node_next = 3\<rparr>,
                    \<lparr>node_value = 30, node_next = 1\<rparr>],
           pool_capacity = 4, free_nodes = 2\<rparr>, 0)
   \<and> next_sp AP_ERROR_IN_RANGE pool_free 2 = Inr 0"
  using pop_returns_next [of 2 pool_free]
  by (simp add: pool_free_def psize_def)

text \<open>
  On the stack \<open>3, 2, 1\<close> of \<open>pool_3\<close>, \<open>pop(3)\<close> returns \<open>2\<close>, the new head, and not the
  index \<open>3\<close> it was given.
\<close>

theorem pop_returns_handle_counterexample:
  "pop AP_ERROR_IN_RANGE pool_3 3 =
     Inr (\<lparr>pool = [\<lparr>node_value = 10, node_next = 0\<rparr>, \<lparr>node_value = 20, node_next = 1\<rparr>,
                    \<lparr>node_value = 30, node_next = 0\<rparr>],
           pool_capacity = 4, free_nodes = 3\<rparr>, 2)
   \<and> map_sum id snd (pop AP_ERROR_IN_RANGE pool_3 3) \<noteq> Inr 3"
  by (simp add: pop_def new_first_def next_sp_def assign_next_def node_def
      AP_ERROR_IN_RANGE_def end_sp_def psize_def pool_3_def)

subsection \<open>C2: the two paths of push\<close>

text \<open>
  Claim C2, as amended. For every value \<open>v\<close> and head \<open>h\<close>: if no node is free,
  \<open>push(v, h)\<close> appends the node \<open>{v, h}\<close> to the vector and returns the size after the
  append converted to the index type, which is that size whenever it is below \<open>2 ^ w\<close>, the
  number of values of the index type. If a node is free, \<open>free_nodes\<close> is an index of the
  pool and \<open>h \<le> size()\<close>, then \<open>push(v, h)\<close> takes the first free node off the free nodes,
  stores \<open>v\<close> as its value and \<open>h\<close> as its \<open>next\<close>, and returns the index of that node.
\<close>

theorem push_fresh_or_recycle:
  "(empty_sp (free_nodes p) \<longrightarrow>
      push AP_ERROR_IN_RANGE w p v h =
        Inr (push_back p \<lparr>node_value = v, node_next = h\<rparr>,
             to_stack_type w (psize (push_back p \<lparr>node_value = v, node_next = h\<rparr>)))
      \<and> pool (push_back p \<lparr>node_value = v, node_next = h\<rparr>) =
          pool p @ [\<lparr>node_value = v, node_next = h\<rparr>]
      \<and> (psize (push_back p \<lparr>node_value = v, node_next = h\<rparr>) < 2 ^ w \<longrightarrow>
           push AP_ERROR_IN_RANGE w p v h =
             Inr (push_back p \<lparr>node_value = v, node_next = h\<rparr>,
                  psize (push_back p \<lparr>node_value = v, node_next = h\<rparr>))))
   \<and> (\<not> empty_sp (free_nodes p) \<and> free_nodes p \<le> psize p \<and> h \<le> psize p \<longrightarrow>
        push AP_ERROR_IN_RANGE w p v h =
          Inr (p\<lparr>pool := (pool p)[free_nodes p - 1 :=
                      (pool p ! (free_nodes p - 1))\<lparr>node_next := h, node_value := v\<rparr>],
                 free_nodes := node_next (pool p ! (free_nodes p - 1))\<rparr>,
               free_nodes p))"
proof -
  have sz: "psize (push_back p \<lparr>node_value = v, node_next = h\<rparr>) = Suc (psize p)"
    by (simp add: psize_def push_back_def)
  show ?thesis
    using push_fresh [of p AP_ERROR_IN_RANGE w v h] push_recycle [of p h w v]
      to_stack_type_fits [of "Suc (psize p)" w]
    by (simp add: sz) (simp add: push_back_def)
qed

theorem push_fresh_or_recycle_witness:
  "push AP_ERROR_IN_RANGE 8 pool_3 40 3 =
     Inr (\<lparr>pool = [\<lparr>node_value = 10, node_next = 0\<rparr>, \<lparr>node_value = 20, node_next = 1\<rparr>,
                    \<lparr>node_value = 30, node_next = 2\<rparr>, \<lparr>node_value = 40, node_next = 3\<rparr>],
           pool_capacity = 4, free_nodes = 0\<rparr>, 4)
   \<and> push AP_ERROR_IN_RANGE 8 pool_free 40 2 =
     Inr (\<lparr>pool = [\<lparr>node_value = 10, node_next = 0\<rparr>, \<lparr>node_value = 20, node_next = 0\<rparr>,
                    \<lparr>node_value = 40, node_next = 2\<rparr>],
           pool_capacity = 4, free_nodes = 1\<rparr>, 3)"
  using push_fresh_or_recycle [of pool_3 8 40 3] push_fresh_or_recycle [of pool_free 8 40 2]
  by (simp add: pool_3_def pool_free_def empty_sp_def end_sp_def psize_def push_back_def
      to_stack_type_def)

text \<open>
  In \<open>pool_free\<close> the node \<open>3\<close> is free and the pool has three nodes; \<open>push(40, 5)\<close> throws
  and returns no index. In \<open>pool_255\<close>, a pool of \<open>stack_pool<T, uint8_t>\<close> with no free
  node, \<open>push(7, 255)\<close> appends the node \<open>256\<close> and returns \<open>0\<close>, not the size \<open>256\<close>.
\<close>

theorem push_recycle_counterexample:
  "\<not> empty_sp (free_nodes pool_free) \<and> push AP_ERROR_IN_RANGE 8 pool_free 40 5 = Inl OutOfRange
   \<and> empty_sp (free_nodes pool_255)
   \<and> psize (push_back pool_255 \<lparr>node_value = 7, node_next = 255\<rparr>) = 256
   \<and> map_sum id snd (push AP_ERROR_IN_RANGE 8 pool_255 7 255) = Inr 0"
proof -
  have a: "\<not> empty_sp (free_nodes pool_free) \<and> push AP_ERROR_IN_RANGE 8 pool_free 40 5 = Inl OutOfRange"
    by (simp add: push_def new_first_def AP_ERROR_IN_RANGE_def pool_free_def empty_sp_def
        end_sp_def psize_def)
  have e: "empty_sp (free_nodes pool_255)"
    by (simp add: pool_255_def empty_sp_def end_sp_def)
  have s: "psize (push_back pool_255 \<lparr>node_value = 7, node_next = 255\<rparr>) = 256"
    by (simp add: psize_def push_back_def pool_255_def)
  have "push AP_ERROR_IN_RANGE 8 pool_255 7 255 =
          Inr (push_back pool_255 \<lparr>node_value = 7, node_next = 255\<rparr>, to_stack_type 8 256)"
    using push_fresh [OF e, of AP_ERROR_IN_RANGE 8 7 255] by (simp add: pool_255_size)
  then have r: "map_sum id snd (push AP_ERROR_IN_RANGE 8 pool_255 7 255) = Inr 0"
    by (simp add: to_stack_type_def)
  from a e s r show ?thesis by simp
qed

subsection \<open>C3: free_stack\<close>

text \<open>
  Claim C3. In a pool whose free nodes form a chain, for every head \<open>h\<close> with
  \<open>0 \<le> h \<le> size()\<close>: if no node is free, \<open>free_stack(h)\<close> sets \<open>free_nodes\<close> to \<open>h\<close>; if a node
  is free, it walks to the last of the free nodes, whose \<open>next\<close> is the end, and stores \<open>h\<close>
  there; in both cases it returns the end index \<open>0\<close>. For every \<open>h > size()\<close> it throws.
\<close>

theorem free_stack_splices:
  assumes "is_chain p (free_nodes p) fs"
  shows "(h \<le> psize p \<and> empty_sp (free_nodes p) \<longrightarrow>
            free_stack AP_ERROR_IN_RANGE p h = Some (Inr (p\<lparr>free_nodes := h\<rparr>, end_sp)))
       \<and> (h \<le> psize p \<and> \<not> empty_sp (free_nodes p) \<longrightarrow>
            last_jump AP_ERROR_IN_RANGE p (free_nodes p) = Some (Inr (last fs))
            \<and> next_sp AP_ERROR_IN_RANGE p (last fs) = Inr end_sp
            \<and> free_stack AP_ERROR_IN_RANGE p h =
                Some (Inr (p\<lparr>pool := (pool p)[last fs - 1 :=
                                 (pool p ! (last fs - 1))\<lparr>node_next := h\<rparr>]\<rparr>, end_sp)))
       \<and> (psize p < h \<longrightarrow> free_stack AP_ERROR_IN_RANGE p h = Some (Inl OutOfRange))"
proof (intro conjI impI)
  assume "h \<le> psize p \<and> empty_sp (free_nodes p)"
  then show "free_stack AP_ERROR_IN_RANGE p h = Some (Inr (p\<lparr>free_nodes := h\<rparr>, end_sp))"
    by (simp add: free_stack_def AP_ERROR_IN_RANGE_def end_sp_def)
next
  assume a: "h \<le> psize p \<and> \<not> empty_sp (free_nodes p)"
  with assms have ne: "fs \<noteq> []" by (cases fs) (auto simp: empty_sp_def end_sp_def)
  show "last_jump AP_ERROR_IN_RANGE p (free_nodes p) = Some (Inr (last fs))"
    by (rule last_jump_chain [OF assms ne])
next
  assume a: "h \<le> psize p \<and> \<not> empty_sp (free_nodes p)"
  with assms have ne: "fs \<noteq> []" by (cases fs) (auto simp: empty_sp_def end_sp_def)
  from is_chain_last [OF assms ne] is_chain_last_next [OF assms ne]
  show "next_sp AP_ERROR_IN_RANGE p (last fs) = Inr end_sp"
    by (simp add: next_sp_in end_sp_def)
next
  assume a: "h \<le> psize p \<and> \<not> empty_sp (free_nodes p)"
  with assms have ne: "fs \<noteq> []" by (cases fs) (auto simp: empty_sp_def end_sp_def)
  from a is_chain_last [OF assms ne] last_jump_chain [OF assms ne]
  show "free_stack AP_ERROR_IN_RANGE p h =
          Some (Inr (p\<lparr>pool := (pool p)[last fs - 1 :=
                           (pool p ! (last fs - 1))\<lparr>node_next := h\<rparr>]\<rparr>, end_sp))"
    by (simp add: free_stack_def assign_next_in) (simp add: AP_ERROR_IN_RANGE_def end_sp_def)
next
  assume "psize p < h"
  then show "free_stack AP_ERROR_IN_RANGE p h = Some (Inl OutOfRange)"
    by (simp add: free_stack_def AP_ERROR_IN_RANGE_def)
qed

theorem free_stack_splices_witness:
  "free_stack AP_ERROR_IN_RANGE pool_3 3 = Some (Inr (pool_3\<lparr>free_nodes := 3\<rparr>, 0))
   \<and> free_stack AP_ERROR_IN_RANGE pool_free 2 =
       Some (Inr (\<lparr>pool = [\<lparr>node_value = 10, node_next = 2\<rparr>, \<lparr>node_value = 20, node_next = 0\<rparr>,
                    \<lparr>node_value = 30, node_next = 1\<rparr>],
                   pool_capacity = 4, free_nodes = 3\<rparr>, 0))
   \<and> free_stack AP_ERROR_IN_RANGE pool_free 4 = Some (Inl OutOfRange)"
proof -
  have a: "is_chain pool_3 (free_nodes pool_3) []" by (simp add: pool_3_def)
  have b: "is_chain pool_free (free_nodes pool_free) [3, 1]" by (simp add: pool_free_def)
  from free_stack_splices [OF a, of 3] free_stack_splices [OF b, of 2] free_stack_splices [OF b, of 4]
  show ?thesis
    by (simp add: pool_3_def pool_free_def empty_sp_def end_sp_def psize_def)
qed

subsection \<open>C4: value and next at the end index\<close>

text \<open>
  Claim C4 asks \<open>value(h)\<close> and \<open>next(h)\<close> to throw the out-of-range error at \<open>h = 0\<close> and at
  every \<open>h > size()\<close>, and to return the field for \<open>1 \<le> h \<le> size()\<close>. The last two hold
  (\<open>value_sp_out\<close>, \<open>next_sp_out\<close>, \<open>value_sp_in\<close>, \<open>next_sp_in\<close>). At \<open>h = 0\<close> the code does not
  throw: in every pool the range check lets \<open>0\<close> through and the functions go on to
  \<open>pool[0 - 1]\<close>, an access outside the vector.
\<close>

theorem value_next_unchecked_at_sentinel:
  "value_sp AP_ERROR_IN_RANGE p 0 = Inl UndefinedBehaviour
   \<and> next_sp AP_ERROR_IN_RANGE p 0 = Inl UndefinedBehaviour"
  by (simp add: value_sp_def next_sp_def node_def AP_ERROR_IN_RANGE_def end_sp_def)

subsection \<open>C5: which free node is reused first\<close>

text \<open>
  Claim C5, as amended. Nodes freed by \<open>pop\<close> are reused last in, first out: in every
  pool, if \<open>pop\<close> frees the node \<open>a\<close> and then \<open>pop\<close> frees the node \<open>b\<close>, the next two pushes
  onto heads that are indices of the pool or the end reuse \<open>b\<close> first and \<open>a\<close> second, and
  such a push right after the first pop reuses \<open>a\<close>. A stack released by \<open>free_stack\<close>
  while a node is free (the free nodes forming a chain) goes behind the last free
  node: the next such push reuses the node that was the first free node before the
  release, not a node of the stack just released.
\<close>

theorem recycling_is_lifo:
  assumes "pop AP_ERROR_IN_RANGE p a = Inr (p1, r1)" and "pop AP_ERROR_IN_RANGE p1 b = Inr (p2, r2)"
    and "h1 \<le> psize p" and "h2 \<le> psize p"
    and "is_chain q (free_nodes q) fs" and "\<not> empty_sp (free_nodes q)"
    and "h \<le> psize q" and "g \<le> psize q"
  shows "(\<exists>p3. push AP_ERROR_IN_RANGE w p1 v1 h1 = Inr (p3, a))
       \<and> (\<exists>p3 p4. push AP_ERROR_IN_RANGE w p2 v1 h1 = Inr (p3, b)
                    \<and> push AP_ERROR_IN_RANGE w p3 v2 h2 = Inr (p4, a))
       \<and> (\<exists>q1 q2. free_stack AP_ERROR_IN_RANGE q h = Some (Inr (q1, end_sp))
                    \<and> push AP_ERROR_IN_RANGE w q1 v1 g = Inr (q2, free_nodes q))"
proof -
  from pop_success [OF assms(1)]
  have a: "1 \<le> a" "a \<le> psize p" "free_nodes p \<le> psize p" by simp_all
  from pop_props [OF a] assms(1)
  have 1: "psize p1 = psize p" "free_nodes p1 = a" by auto
  from pop_success [OF assms(2)]
  have b: "1 \<le> b" "b \<le> psize p1" "free_nodes p1 \<le> psize p1" by simp_all
  from pop_props [OF b] assms(2)
  have 2: "psize p2 = psize p1" "free_nodes p2 = b" "node_next (pool p2 ! (b - 1)) = free_nodes p1"
    by auto
  from a 1 assms(3) have "1 \<le> free_nodes p1" "free_nodes p1 \<le> psize p1" "h1 \<le> psize p1"
    by simp_all
  from push_recycle_props [OF this, of w v1] 1
  have first: "\<exists>p3. push AP_ERROR_IN_RANGE w p1 v1 h1 = Inr (p3, a)" by auto
  from b 1 2 assms(3) have "1 \<le> free_nodes p2" "free_nodes p2 \<le> psize p2" "h1 \<le> psize p2"
    by simp_all
  from push_recycle_props [OF this, of w v1]
  obtain p3 where 3: "push AP_ERROR_IN_RANGE w p2 v1 h1 = Inr (p3, free_nodes p2)"
    "psize p3 = psize p2" "free_nodes p3 = node_next (pool p2 ! (free_nodes p2 - 1))"
    by (elim exE conjE)
  from 1 2 3 have f3: "free_nodes p3 = a" by simp
  with a 1 2 3 assms(4) have "1 \<le> free_nodes p3" "free_nodes p3 \<le> psize p3" "h2 \<le> psize p3"
    by simp_all
  from push_recycle_props [OF this, of w v2]
  obtain p4 where 4: "push AP_ERROR_IN_RANGE w p3 v2 h2 = Inr (p4, free_nodes p3)"
    by (elim exE conjE)
  from 3(1) 4 2(2) f3 have second: "\<exists>p3 p4. push AP_ERROR_IN_RANGE w p2 v1 h1 = Inr (p3, b)
                    \<and> push AP_ERROR_IN_RANGE w p3 v2 h2 = Inr (p4, a)" by auto
  let ?q1 = "q\<lparr>pool := (pool q)[last fs - 1 := (pool q ! (last fs - 1))\<lparr>node_next := h\<rparr>]\<rparr>"
  note fr = free_stack_nonempty [OF assms(5) assms(6) assms(7)]
  from assms(6) have "1 \<le> free_nodes q" by (simp add: empty_sp_def end_sp_def)
  with is_chain_head_le [OF assms(5)] assms(8)
  have "1 \<le> free_nodes ?q1" "free_nodes ?q1 \<le> psize ?q1" "g \<le> psize ?q1"
    by (simp_all add: psize_def)
  from push_recycle_props [OF this, of w v1]
  obtain q2 where "push AP_ERROR_IN_RANGE w ?q1 v1 g = Inr (q2, free_nodes ?q1)"
    by (elim exE conjE)
  then have "push AP_ERROR_IN_RANGE w ?q1 v1 g = Inr (q2, free_nodes q)" by simp
  with fr have third: "\<exists>q1 q2. free_stack AP_ERROR_IN_RANGE q h = Some (Inr (q1, end_sp))
                    \<and> push AP_ERROR_IN_RANGE w q1 v1 g = Inr (q2, free_nodes q)" by blast
  from first second third show ?thesis by simp
qed

theorem recycling_is_lifo_witness:
  "(\<exists>p3. push AP_ERROR_IN_RANGE 8
          \<lparr>pool = [\<lparr>node_value = 10, node_next = 0\<rparr>, \<lparr>node_value = 20, node_next = 1\<rparr>,
                   \<lparr>node_value = 30, node_next = 0\<rparr>],
           pool_capacity = 4, free_nodes = 3\<rparr> (7::nat) 1 = Inr (p3, 3))
   \<and> (\<exists>p3 p4. push AP_ERROR_IN_RANGE 8
          \<lparr>pool = [\<lparr>node_value = 10, node_next = 0\<rparr>, \<lparr>node_value = 20, node_next = 3\<rparr>,
                   \<lparr>node_value = 30, node_next = 0\<rparr>],
           pool_capacity = 4, free_nodes = 2\<rparr> (7::nat) 1 = Inr (p3, 2)
         \<and> push AP_ERROR_IN_RANGE 8 p3 8 2 = Inr (p4, 3))
   \<and> (\<exists>q1 q2. free_stack AP_ERROR_IN_RANGE pool_free 2 = Some (Inr (q1, end_sp))
         \<and> push AP_ERROR_IN_RANGE 8 q1 7 0 = Inr (q2, free_nodes pool_free))"
proof -
  have a: "pop AP_ERROR_IN_RANGE pool_3 3 =
     Inr (\<lparr>pool = [\<lparr>node_value = 10, node_next = 0\<rparr>, \<lparr>node_value = 20, node_next = 1\<rparr>,
                    \<lparr>node_value = 30, node_next = 0\<rparr>],
           pool_capacity = 4, free_nodes = 3\<rparr>, 2)"
    by (simp add: pop_def new_first_def next_sp_def assign_next_def node_def
        AP_ERROR_IN_RANGE_def end_sp_def psize_def pool_3_def)
  have b: "pop AP_ERROR_IN_RANGE
          \<lparr>pool = [\<lparr>node_value = 10, node_next = 0\<rparr>, \<lparr>node_value = 20, node_next = 1\<rparr>,
                   \<lparr>node_value = 30::nat, node_next = 0\<rparr>],
           pool_capacity = 4, free_nodes = 3\<rparr> 2 =
     Inr (\<lparr>pool = [\<lparr>node_value = 10, node_next = 0\<rparr>, \<lparr>node_value = 20, node_next = 3\<rparr>,
                    \<lparr>node_value = 30, node_next = 0\<rparr>],
           pool_capacity = 4, free_nodes = 2\<rparr>, 1)"
    by (simp add: pop_def new_first_def next_sp_def assign_next_def node_def
        AP_ERROR_IN_RANGE_def end_sp_def psize_def)
  have c: "1 \<le> psize pool_3" "2 \<le> psize pool_3" by (simp_all add: pool_3_def psize_def)
  have d: "is_chain pool_free (free_nodes pool_free) [3, 1]" by (simp add: pool_free_def)
  have e: "\<not> empty_sp (free_nodes pool_free)"
    by (simp add: pool_free_def empty_sp_def end_sp_def)
  have f: "2 \<le> psize pool_free" "0 \<le> psize pool_free" by (simp_all add: pool_free_def psize_def)
  from recycling_is_lifo [OF a b c d e f, of 8 7 8] show ?thesis .
qed

text \<open>
  In \<open>pool_free\<close> the nodes \<open>3, 1\<close> are free. \<open>free_stack(2)\<close> puts the node \<open>2\<close> behind the
  node \<open>1\<close>, and the push that follows reuses the node \<open>3\<close>, not the node \<open>2\<close> freed last.
  After \<open>pop(3)\<close> and \<open>pop(2)\<close> on \<open>pool_3\<close>, a push onto the head \<open>9\<close> throws and reuses no
  node.
\<close>

theorem recycling_is_lifo_counterexample:
  "free_stack AP_ERROR_IN_RANGE pool_free 2 =
     Some (Inr (\<lparr>pool = [\<lparr>node_value = 10, node_next = 2\<rparr>, \<lparr>node_value = 20, node_next = 0\<rparr>,
                          \<lparr>node_value = 30, node_next = 1\<rparr>],
                 pool_capacity = 4, free_nodes = 3\<rparr>, 0))
   \<and> push AP_ERROR_IN_RANGE 8
         \<lparr>pool = [\<lparr>node_value = 10, node_next = 2\<rparr>, \<lparr>node_value = 20, node_next = 0\<rparr>,
                  \<lparr>node_value = 30, node_next = 1\<rparr>],
          pool_capacity = 4, free_nodes = 3\<rparr> (99::nat) 0 =
       Inr (\<lparr>pool = [\<lparr>node_value = 10, node_next = 2\<rparr>, \<lparr>node_value = 20, node_next = 0\<rparr>,
                      \<lparr>node_value = 99, node_next = 0\<rparr>],
             pool_capacity = 4, free_nodes = 1\<rparr>, 3)
   \<and> pop AP_ERROR_IN_RANGE pool_3 3 =
       Inr (\<lparr>pool = [\<lparr>node_value = 10, node_next = 0\<rparr>, \<lparr>node_value = 20, node_next = 1\<rparr>,
                      \<lparr>node_value = 30, node_next = 0\<rparr>],
             pool_capacity = 4, free_nodes = 3\<rparr>, 2)
   \<and> pop AP_ERROR_IN_RANGE
         \<lparr>pool = [\<lparr>node_value = 10, node_next = 0\<rparr>, \<lparr>node_value = 20, node_next = 1\<rparr>,
                  \<lparr>node_value = 30::nat, node_next = 0\<rparr>],
          pool_capacity = 4, free_nodes = 3\<rparr> 2 =
       Inr (\<lparr>pool = [\<lparr>node_value = 10, node_next = 0\<rparr>, \<lparr>node_value = 20, node_next = 3\<rparr>,
                      \<lparr>node_value = 30, node_next = 0\<rparr>],
             pool_capacity = 4, free_nodes = 2\<rparr>, 1)
   \<and> push AP_ERROR_IN_RANGE 8
         \<lparr>pool = [\<lparr>node_value = 10, node_next = 0\<rparr>, \<lparr>node_value = 20, node_next = 3\<rparr>,
                  \<lparr>node_value = 30, node_next = 0\<rparr>],
          pool_capacity = 4, free_nodes = 2\<rparr> (7::nat) 9 = Inl OutOfRange"
  by (simp add: free_stack_def last_jump.simps push_def pop_def new_first_def next_sp_def
      assign_next_def assign_value_def node_def AP_ERROR_IN_RANGE_def empty_sp_def end_sp_def
      psize_def pool_free_def pool_3_def)

subsection \<open>C6: traversal order\<close>

text \<open>
  Claim C6, as amended. In a pool whose free nodes form a chain, build a stack from the
  empty stack by pushing the values \<open>vs\<close> one after the other, each onto the head the push
  before returned. If the size the pool ends with (its size before, plus one for every
  push beyond the number of free nodes) is below \<open>2 ^ w\<close>, the number of values of the
  index type, then every push succeeds, and the traversal of the resulting stack with
  the iterator, from its head until the iterator equals the end, visits the values in
  the reverse of the order they were pushed in. For the pushes of \<open>1\<close>, \<open>2\<close>, \<open>3\<close> on a new
  pool it visits \<open>3, 2, 1\<close>.
\<close>

theorem traversal_reverse_push_order:
  assumes "is_chain p (free_nodes p) fs" and "psize p + (length vs - length fs) < 2 ^ w"
  shows "build_and_print AP_ERROR_IN_RANGE w p vs = Some (Inr (rev vs))"
proof -
  have e: "is_chain p new_stack []" by (simp add: new_stack_def end_sp_def)
  have d: "set [] \<inter> set fs = {}" by simp
  from push_all_chain [OF assms(1) e d assms(2)]
  obtain p' h' hs' where r: "push_all AP_ERROR_IN_RANGE w p new_stack vs = Inr (p', h')"
    "is_chain p' h' hs'" "map (valof p') hs' = rev vs"
    by auto
  from print_stack_chain [OF r(2)] r(3)
  have "print_stack AP_ERROR_IN_RANGE p' h' = Some (Inr (rev vs))"
    by simp
  with r(1) show ?thesis by (simp add: build_and_print_def)
qed

theorem traversal_reverse_push_order_witness:
  "build_and_print AP_ERROR_IN_RANGE 8 stack_pool_default [1, 2, 3 :: nat] = Some (Inr [3, 2, 1])"
proof -
  have c: "is_chain (stack_pool_default :: nat stack_pool)
          (free_nodes (stack_pool_default :: nat stack_pool)) []"
    by (simp add: stack_pool_default_def end_sp_def)
  have b: "psize (stack_pool_default :: nat stack_pool)
             + (length [1, 2, 3 :: nat] - length ([] :: nat list)) < 2 ^ 8"
    by (simp add: stack_pool_default_def psize_def)
  from traversal_reverse_push_order [OF c b] show ?thesis by simp
qed

text \<open>
  In \<open>pool_255\<close>, a pool of \<open>stack_pool<T, uint8_t>\<close> with a stack on all of its 255 nodes
  and no free node, the stack built by the one push of \<open>7\<close> onto the empty stack has the
  head \<open>0\<close>: the traversal visits nothing.
\<close>

theorem traversal_reverse_push_order_counterexample:
  "is_chain pool_255 (free_nodes pool_255) []
   \<and> build_and_print AP_ERROR_IN_RANGE 8 pool_255 [7] = Some (Inr [])
   \<and> build_and_print AP_ERROR_IN_RANGE 8 pool_255 [7] \<noteq> Some (Inr (rev [7]))"
proof -
  have c: "is_chain pool_255 (free_nodes pool_255) []" by (simp add: pool_255_def)
  have e: "empty_sp (free_nodes pool_255)"
    by (simp add: pool_255_def empty_sp_def end_sp_def)
  let ?q = "push_back pool_255 \<lparr>node_value = 7, node_next = new_stack\<rparr>"
  have "push AP_ERROR_IN_RANGE 8 pool_255 7 new_stack = Inr (?q, to_stack_type 8 256)"
    using push_fresh [OF e, of AP_ERROR_IN_RANGE 8 7 new_stack] by (simp add: pool_255_size)
  then have p: "push_all AP_ERROR_IN_RANGE 8 pool_255 new_stack [7] = Inr (?q, 0)"
    by (simp add: to_stack_type_def)
  have "is_chain ?q 0 []" by simp
  from print_stack_chain [OF this] have "print_stack AP_ERROR_IN_RANGE ?q 0 = Some (Inr [])"
    by simp
  with p have "build_and_print AP_ERROR_IN_RANGE 8 pool_255 [7] = Some (Inr [])"
    by (simp add: build_and_print_def)
  with c show ?thesis by simp
qed

subsection \<open>C7: reach\<close>

text \<open>
  Claim C7. For every non-empty stack with head \<open>h\<close> (a chain \<open>hs\<close> that is not empty):
  \<open>reach(h, 0)\<close> returns what \<open>reach(h, 1)\<close> returns; \<open>reach(h, 1)\<close> is the result of
  dereferencing the iterator constructed at \<open>h\<close>, which is the value of the node \<open>h\<close>;
  \<open>ssize(h)\<close> is the length of the chain, and \<open>reach(h, m)\<close> throws for every \<open>m\<close> greater than
  that.
\<close>

theorem reach_first_node:
  assumes "is_chain p h hs" and "hs \<noteq> []"
  shows "reach AP_ERROR_IN_RANGE p h 0 = reach AP_ERROR_IN_RANGE p h 1
       \<and> cbegin AP_ERROR_IN_RANGE p h = Inr \<lparr>pool_ptr = Some p, index = h\<rparr>
       \<and> reach AP_ERROR_IN_RANGE p h 1 =
           Some (deref AP_ERROR_IN_RANGE \<lparr>pool_ptr = Some p, index = h\<rparr>)
       \<and> deref AP_ERROR_IN_RANGE \<lparr>pool_ptr = Some p, index = h\<rparr> =
           Inr (node_value (pool p ! (h - 1)))
       \<and> ssize AP_ERROR_IN_RANGE p h = Some (Inr (length hs))
       \<and> (\<forall>m. length hs < m \<longrightarrow> reach AP_ERROR_IN_RANGE p h m = Some (Inl OutOfRange))"
proof -
  from assms have h: "1 \<le> h" "h \<le> psize p" by (cases hs; simp add: psize_def)+
  from assms have n: "1 \<le> length hs" by (cases hs) simp_all
  note sz = ssize_chain [OF assms(1)]
  have r0: "reach AP_ERROR_IN_RANGE p h 0 = Some (value_sp AP_ERROR_IN_RANGE p h)"
    by (simp add: reach_def sz reach_loop_done) (simp add: AP_ERROR_IN_RANGE_def end_sp_def)
  have r1: "reach AP_ERROR_IN_RANGE p h 1 = Some (value_sp AP_ERROR_IN_RANGE p h)"
    using n by (simp add: reach_def sz reach_loop_done) (simp add: AP_ERROR_IN_RANGE_def end_sp_def)
  have far: "reach AP_ERROR_IN_RANGE p h m = Some (Inl OutOfRange)" if "length hs < m" for m
    using that by (simp add: reach_def sz) (simp add: AP_ERROR_IN_RANGE_def)
  have d: "deref AP_ERROR_IN_RANGE \<lparr>pool_ptr = Some p, index = h\<rparr> = value_sp AP_ERROR_IN_RANGE p h"
    by (simp add: deref_def)
  from r0 r1 far d h sz show ?thesis
    by (simp add: cbegin_def ctor_in value_sp_in)
qed

theorem reach_first_node_witness:
  "reach AP_ERROR_IN_RANGE pool_3 3 0 = Some (Inr 30)
   \<and> reach AP_ERROR_IN_RANGE pool_3 3 1 = Some (Inr 30)
   \<and> ssize AP_ERROR_IN_RANGE pool_3 3 = Some (Inr 3)
   \<and> reach AP_ERROR_IN_RANGE pool_3 3 4 = Some (Inl OutOfRange)"
proof -
  have c: "is_chain pool_3 3 [3, 2, 1]" by (simp add: pool_3_def)
  have "[3, 2, 1] \<noteq> ([] :: nat list)" by simp
  from reach_first_node [OF c this] show ?thesis by (simp add: pool_3_def)
qed

subsection \<open>C8: the iterator at the end index\<close>

text \<open>
  Claim C8 asks that an iterator can always be constructed at the end index \<open>0\<close>, that the
  construction at another index throws when the index is greater than \<open>size()\<close>, and that
  dereferencing an iterator at the end index fails. The first two hold (\<open>ctor_in\<close>,
  \<open>ctor_out\<close>). The dereference does not throw: in every pool the iterator at \<open>0\<close> is
  constructed, and dereferencing it passes the range check of \<open>value\<close> and reads
  \<open>pool[0 - 1]\<close>, outside the vector.
\<close>

theorem deref_unchecked_at_sentinel:
  "stack_iterator_ctor AP_ERROR_IN_RANGE 0 (Some p) = Inr \<lparr>pool_ptr = Some p, index = 0\<rparr>
   \<and> deref AP_ERROR_IN_RANGE \<lparr>pool_ptr = Some p, index = 0\<rparr> = Inl UndefinedBehaviour"
  by (simp add: stack_iterator_ctor_def deref_def value_sp_def node_def AP_ERROR_IN_RANGE_def
      end_sp_def)

subsection \<open>C9: size and capacity never shrink\<close>

text \<open>
  Claim C9. Whatever the range check and the index type are, along every run of \<open>push\<close>, \<open>pop\<close>, \<open>free_stack\<close>
  and \<open>reserve\<close> on a pool whose capacity covers its size (as it does after either
  constructor, \<open>constructors_capacity\<close>): the capacity does not decrease, the size does not
  decrease, and the capacity still covers the size.
\<close>

theorem capacity_size_monotone:
  assumes "run chk w p cs = Some (Inr p')" and "psize p \<le> capacity p"
  shows "capacity p \<le> capacity p' \<and> psize p \<le> psize p' \<and> psize p' \<le> capacity p'"
  using assms
proof (induction cs arbitrary: p)
  case Nil
  then show ?case by simp
next
  case (Cons c cs)
  from Cons.prems(1) obtain q where q: "apply_operation chk w p c = Some (Inr q)"
    and r: "run chk w q cs = Some (Inr p')"
    by (auto split: option.splits sum.splits)
  from apply_operation_shape [OF q] Cons.prems(2)
  have s: "psize p \<le> psize q" "capacity p \<le> capacity q" "psize q \<le> capacity q" by simp_all
  from Cons.IH [OF r s(3)] s show ?case by simp
qed

theorem capacity_size_monotone_witness:
  "capacity (stack_pool_default :: nat stack_pool)
     \<le> capacity (\<lparr>pool = [\<lparr>node_value = 1, node_next = 0\<rparr>, \<lparr>node_value = 5, node_next = 0\<rparr>],
                  pool_capacity = 10, free_nodes = 1\<rparr> :: nat stack_pool)
   \<and> psize (stack_pool_default :: nat stack_pool)
     \<le> psize (\<lparr>pool = [\<lparr>node_value = 1, node_next = 0\<rparr>, \<lparr>node_value = 5, node_next = 0\<rparr>],
                  pool_capacity = 10, free_nodes = 1\<rparr> :: nat stack_pool)
   \<and> psize (\<lparr>pool = [\<lparr>node_value = 1, node_next = 0\<rparr>, \<lparr>node_value = 5, node_next = 0\<rparr>],
                  pool_capacity = 10, free_nodes = 1\<rparr> :: nat stack_pool)
     \<le> capacity (\<lparr>pool = [\<lparr>node_value = 1, node_next = 0\<rparr>, \<lparr>node_value = 5, node_next = 0\<rparr>],
                  pool_capacity = 10, free_nodes = 1\<rparr> :: nat stack_pool)"
proof -
  have r: "run AP_ERROR_IN_RANGE 8 (stack_pool_default :: nat stack_pool)
          [Push 1 0, Push 2 1, Pop 2, Reserve 10, Free_stack 1, Push 5 0] =
        Some (Inr \<lparr>pool = [\<lparr>node_value = 1, node_next = 0\<rparr>, \<lparr>node_value = 5, node_next = 0\<rparr>],
                   pool_capacity = 10, free_nodes = 1\<rparr>)"
    by (simp add: stack_pool_default_def push_def pop_def free_stack_def new_first_def next_sp_def
        assign_next_def assign_value_def node_def push_back_def reserve_def Let_def last_jump.simps
        to_stack_type_def AP_ERROR_IN_RANGE_def empty_sp_def end_sp_def psize_def)
  have s: "psize (stack_pool_default :: nat stack_pool) \<le> capacity (stack_pool_default :: nat stack_pool)"
    by (simp add: stack_pool_default_def psize_def capacity_def)
  from capacity_size_monotone [OF r s] show ?thesis .
qed

subsection \<open>C10: push checks the head only when it reuses a node\<close>

text \<open>
  Claim C10. When no node is free, \<open>push(v, h)\<close> checks nothing: it succeeds for every
  \<open>h\<close>, also for \<open>h > size()\<close>, and the new node's \<open>next\<close> is \<open>h\<close> as given. When a node is free,
  \<open>push(v, h)\<close> throws if \<open>h > size()\<close>.
\<close>

theorem push_checks_head_on_recycle_only:
  "(empty_sp (free_nodes p) \<longrightarrow>
      push AP_ERROR_IN_RANGE w p v h =
        Inr (push_back p \<lparr>node_value = v, node_next = h\<rparr>, to_stack_type w (Suc (psize p)))
      \<and> next_sp AP_ERROR_IN_RANGE (push_back p \<lparr>node_value = v, node_next = h\<rparr>) (Suc (psize p)) =
          Inr h)
   \<and> (\<not> empty_sp (free_nodes p) \<and> psize p < h \<longrightarrow>
        push AP_ERROR_IN_RANGE w p v h = Inl OutOfRange)"
  using push_fresh [of p AP_ERROR_IN_RANGE w v h] push_recycle_out [of p h w v]
  by (simp add: next_sp_def node_def AP_ERROR_IN_RANGE_def end_sp_def psize_def push_back_def)

theorem push_checks_head_on_recycle_only_witness:
  "push AP_ERROR_IN_RANGE 8 pool_3 40 99 =
     Inr (\<lparr>pool = [\<lparr>node_value = 10, node_next = 0\<rparr>, \<lparr>node_value = 20, node_next = 1\<rparr>,
                    \<lparr>node_value = 30, node_next = 2\<rparr>, \<lparr>node_value = 40, node_next = 99\<rparr>],
           pool_capacity = 4, free_nodes = 0\<rparr>, 4)
   \<and> push AP_ERROR_IN_RANGE 8 pool_free 40 4 = Inl OutOfRange"
  using push_checks_head_on_recycle_only [of pool_3 8 40 99]
    push_checks_head_on_recycle_only [of pool_free 8 40 4]
  by (simp add: pool_3_def pool_free_def empty_sp_def end_sp_def psize_def push_back_def
      to_stack_type_def)

end
